theory Spec2Isabelle
  imports Complex_Main "HOL-Library.Sublist"
begin

section \<open>Text primitives of the notes service\<close>

text \<open>
  The notes service (\<^verbatim>\<open>src/notes/main.py\<close>) works on Python \<^verbatim>\<open>str\<close> values.  Contents are
  modelled as \<^typ>\<open>string\<close>, one \<^typ>\<open>char\<close> per code point, and the character classes
  below are those of Python on ASCII text: \<^verbatim>\<open>\w\<close> is a letter, a digit or the underscore,
  \<^verbatim>\<open>\d\<close> a decimal digit, white space is what \<^verbatim>\<open>str.strip\<close> and \<^verbatim>\<open>str.split\<close> remove,
  and \<^verbatim>\<open>str.lower\<close> maps \<^verbatim>\<open>A-Z\<close> to \<^verbatim>\<open>a-z\<close>.  A character outside ASCII is in no class and
  is its own lower case.
\<close>

definition upper_letters :: string where
  "upper_letters = ''ABCDEFGHIJKLMNOPQRSTUVWXYZ''"

definition lower_letters :: string where
  "lower_letters = ''abcdefghijklmnopqrstuvwxyz''"

definition lower_char :: "char \<Rightarrow> char" where
  "lower_char c = (case map_of (zip upper_letters lower_letters) c of Some d \<Rightarrow> d | None \<Rightarrow> c)"

definition lower :: "string \<Rightarrow> string" where
  "lower s = map lower_char s"

definition is_digit :: "char \<Rightarrow> bool" where
  "is_digit c = (c \<in> set ''0123456789'')"

definition is_word :: "char \<Rightarrow> bool" where
  "is_word c = (c \<in> set lower_letters \<or> c \<in> set upper_letters \<or> is_digit c \<or> c = CHR ''_'')"

definition is_space :: "char \<Rightarrow> bool" where
  "is_space c = (c \<in> set [CHR 0x09, CHR 0x0A, CHR 0x0B, CHR 0x0C, CHR 0x0D,
                            CHR 0x1C, CHR 0x1D, CHR 0x1E, CHR 0x1F, CHR 0x20])"

text \<open>\<^verbatim>\<open>s.strip()\<close>, and the test \<^verbatim>\<open>not s.strip()\<close> the extractors start with.\<close>

definition strip :: "string \<Rightarrow> string" where
  "strip s = rev (dropWhile is_space (rev (dropWhile is_space s)))"

definition blank :: "string \<Rightarrow> bool" where
  "blank s = (strip s = [])"

text \<open>\<^verbatim>\<open>s[:100] + ('...' if len(t) > 100 else '')\<close>: the title rule all three extractors share;
  \<open>t\<close> is the text whose length decides on the marker.\<close>

definition ellipsis :: "string \<Rightarrow> string" where
  "ellipsis t = (if 100 < length t then ''...'' else [])"

text \<open>\<^verbatim>\<open>xs.sort(key=f, reverse=True)\<close>: Python reverses the list, sorts it stably by the key
  and reverses the result, so equal keys keep their order.\<close>

definition sort_desc :: "('a \<Rightarrow> 'k::linorder) \<Rightarrow> 'a list \<Rightarrow> 'a list" where
  "sort_desc f xs = rev (sort_key f (rev xs))"

section \<open>Regular expressions\<close>

text \<open>
  The patterns of the source use literals, the classes \<^verbatim>\<open>\w\<close>, \<^verbatim>\<open>\d\<close> and \<^verbatim>\<open>[- ]\<close>, the
  word boundary \<^verbatim>\<open>\b\<close>, alternation, \<^verbatim>\<open>?\<close>, \<^verbatim>\<open>+\<close> on a class, and at most one capturing
  group; every call passes \<^verbatim>\<open>re.IGNORECASE\<close>.  The matcher is the backtracking one of
  Python's \<^verbatim>\<open>re\<close>: it lists the ways a pattern matches at a position in the order Python
  tries them (first alternative first, \<^verbatim>\<open>?\<close> and \<^verbatim>\<open>+\<close> greedy), so the head of the list is
  the match Python reports.
\<close>

datatype cclass = WordC | DigitC | SetC string

datatype regex =
    Str string
  | One cclass
  | Many cclass
  | Bnd
  | Seq regex regex
  | Alt regex regex
  | Opt regex
  | Grp regex

fun in_class :: "cclass \<Rightarrow> char \<Rightarrow> bool" where
  "in_class WordC c = is_word c"
| "in_class DigitC c = is_digit c"
| "in_class (SetC cs) c = (lower_char c \<in> set (lower cs))"

text \<open>
  A state of the matcher: the character before the position (\<^verbatim>\<open>None\<close> at the start of the
  text), the text matched so far, reversed, the capture of group 1 so far, and the text
  from the position on.
\<close>

type_synonym mstate = "char option \<times> string \<times> string option \<times> string"

text \<open>\<^verbatim>\<open>\b\<close>: exactly one of the characters before and after the position is a word
  character; the start and the end of the text count as a non-word character.\<close>

definition at_boundary :: "char option \<Rightarrow> string \<Rightarrow> bool" where
  "at_boundary p s =
     ((case p of None \<Rightarrow> False | Some c \<Rightarrow> is_word c) \<noteq> (case s of [] \<Rightarrow> False | c # _ \<Rightarrow> is_word c))"

fun lit :: "string \<Rightarrow> mstate \<Rightarrow> mstate list" where
  "lit [] st = [st]"
| "lit (c # w) (p, m, g, []) = []"
| "lit (c # w) (p, m, g, d # s) =
     (if lower_char d = lower_char c then lit w (Some d, d # m, g, s) else [])"

fun many :: "cclass \<Rightarrow> mstate \<Rightarrow> mstate list" where
  "many k (p, m, g, []) = []"
| "many k (p, m, g, c # s) =
     (if in_class k c then many k (Some c, c # m, g, s) @ [(Some c, c # m, g, s)] else [])"

fun rmatch :: "regex \<Rightarrow> mstate \<Rightarrow> mstate list" where
  "rmatch (Str w) st = lit w st"
| "rmatch (One k) (p, m, g, s) =
     (case s of [] \<Rightarrow> [] | c # cs \<Rightarrow> if in_class k c then [(Some c, c # m, g, cs)] else [])"
| "rmatch (Many k) st = many k st"
| "rmatch Bnd (p, m, g, s) = (if at_boundary p s then [(p, m, g, s)] else [])"
| "rmatch (Seq r1 r2) st = concat (map (rmatch r2) (rmatch r1 st))"
| "rmatch (Alt r1 r2) st = rmatch r1 st @ rmatch r2 st"
| "rmatch (Opt r) st = rmatch r st @ [st]"
| "rmatch (Grp r) (p, m, g, s) =
     map (\<lambda>(p', m', g', s'). (p', m' @ m, Some (rev m'), s')) (rmatch r (p, [], g, s))"

text \<open>A match object: \<^verbatim>\<open>group()\<close> and \<^verbatim>\<open>group(1)\<close>.\<close>

type_synonym match = "string \<times> string option"

text \<open>The match Python reports at a position, \<open>p\<close> the character before it.\<close>

definition match_at :: "regex \<Rightarrow> char option \<Rightarrow> string \<Rightarrow> match option" where
  "match_at r p s =
     (case rmatch r (p, [], None, s) of [] \<Rightarrow> None | (p', m, g, s') # _ \<Rightarrow> Some (rev m, g))"

text \<open>\<^verbatim>\<open>re.search\<close>: the match at the leftmost position that has one.\<close>

fun search_from :: "regex \<Rightarrow> char option \<Rightarrow> string \<Rightarrow> match option" where
  "search_from r p [] = match_at r p []"
| "search_from r p (c # cs) =
     (case match_at r p (c # cs) of Some x \<Rightarrow> Some x | None \<Rightarrow> search_from r (Some c) cs)"

definition re_search :: "regex \<Rightarrow> string \<Rightarrow> match option" where
  "re_search r s = search_from r None s"

text \<open>
  \<^verbatim>\<open>re.finditer\<close> and \<^verbatim>\<open>re.findall\<close>: the matches from left to right, none overlapping.  After
  a match of \<open>n\<close> characters the scan resumes \<open>n\<close> characters on; \<open>skip\<close> counts the
  characters of the last match still to step over.  No pattern of the source matches the
  empty string; for one that did, the scan here steps one character on.
\<close>

fun finditer_from :: "regex \<Rightarrow> char option \<Rightarrow> string \<Rightarrow> nat \<Rightarrow> match list" where
  "finditer_from r p [] skip =
     (if skip = 0 then (case match_at r p [] of None \<Rightarrow> [] | Some x \<Rightarrow> [x]) else [])"
| "finditer_from r p (c # cs) skip =
     (if 0 < skip then finditer_from r (Some c) cs (skip - 1)
      else (case match_at r p (c # cs) of
              None \<Rightarrow> finditer_from r (Some c) cs 0
            | Some x \<Rightarrow> x # finditer_from r (Some c) cs (length (fst x) - 1)))"

definition re_finditer :: "regex \<Rightarrow> string \<Rightarrow> match list" where
  "re_finditer r s = finditer_from r None s 0"

definition re_findall :: "regex \<Rightarrow> string \<Rightarrow> string list" where
  "re_findall r s = map fst (re_finditer r s)"

text \<open>Pattern-building shorthands: \<^verbatim>\<open>a|b|c\<close>, \<^verbatim>\<open>abc\<close> and \<^verbatim>\<open>\b(?:...)\b\<close>.\<close>

fun alts :: "regex list \<Rightarrow> regex" where
  "alts [] = One (SetC [])"
| "alts [r] = r"
| "alts (r # rs) = Alt r (alts rs)"

fun seqs :: "regex list \<Rightarrow> regex" where
  "seqs [] = Str []"
| "seqs [r] = r"
| "seqs (r # rs) = Seq r (seqs rs)"

definition bounded :: "regex \<Rightarrow> regex" where
  "bounded r = Seq Bnd (Seq r Bnd)"

section \<open>Data model\<close>

text \<open>A transcript segment is a dictionary read with \<^verbatim>\<open>get('content', '')\<close>,
  \<^verbatim>\<open>get('speaker_id')\<close> and \<^verbatim>\<open>get('timestamp')\<close>: a missing content is the empty string, a
  missing speaker or timestamp is \<^verbatim>\<open>None\<close>.  Each extractor wraps its body in
  \<^verbatim>\<open>try ... except Exception: return []\<close>; on segments of this type nothing in the three
  pattern extractors raises, so that branch has no counterpart below.\<close>

record transcript =
  content :: string
  speaker_id :: "string option"
  timestamp :: "string option"

record action_item =
  ai_title :: string
  ai_description :: string
  assigned_to_speaker_id :: "string option"
  assigned_to_name :: "string option"
  due_date :: "string option"
  status :: string
  priority :: string

section \<open>Action items\<close>

definition follow_up :: regex where
  "follow_up = seqs [Str ''follow'', Opt (One (SetC ''- '')), Str ''up'']"

definition next_steps :: regex where
  "next_steps = Seq (Str ''next step'') (Opt (Str ''s''))"

definition action_patterns :: "regex list" where
  "action_patterns =
    [bounded (alts [Str ''action'', Str ''todo'', Str ''task'', Str ''assignment'']),
     bounded (alts [follow_up, next_steps]),
     bounded (alts [Str ''will'', Str ''should'', Str ''need to'', Str ''have to'', Str ''must'']),
     bounded (alts [Str ''by'', Str ''before'', Str ''until'', Str ''deadline'']),
     bounded (alts [Str ''responsible'', Str ''assigned'', Str ''owner''])]"

definition word_group :: regex where
  "word_group = Grp (Many WordC)"

definition assignee_patterns :: "regex list" where
  "assignee_patterns =
    [seqs [Bnd, word_group, Str '' will'', Bnd],
     seqs [Bnd, word_group, Str '' should'', Bnd],
     seqs [Bnd, Str ''assigned to '', word_group, Bnd],
     seqs [Bnd, word_group, Str '' is responsible'', Bnd]]"

definition date_group :: regex where
  "date_group = Grp (seqs [Many WordC, Str '' '', Many DigitC])"

definition due_date_patterns :: "regex list" where
  "due_date_patterns =
    [seqs [Bnd, Str ''by '', date_group, Bnd],
     seqs [Bnd, Str ''before '', date_group, Bnd],
     seqs [Bnd, Str ''until '', date_group, Bnd],
     seqs [Bnd, Str ''deadline '', date_group, Bnd]]"

text \<open>The loop \<^verbatim>\<open>for pattern in action_patterns: if re.search(...): action_score += 1\<close>.\<close>

fun action_score_loop :: "regex list \<Rightarrow> string \<Rightarrow> nat \<Rightarrow> nat" where
  "action_score_loop [] c score = score"
| "action_score_loop (p # ps) c score =
     (if re_search p c \<noteq> None then action_score_loop ps c (score + 1)
      else action_score_loop ps c score)"

definition action_score :: "string \<Rightarrow> nat" where
  "action_score c = action_score_loop action_patterns c 0"

text \<open>The loops over \<^verbatim>\<open>assignee_patterns\<close> and \<^verbatim>\<open>due_date_patterns\<close>: \<^verbatim>\<open>group(1)\<close> of the first
  pattern that is found, \<^verbatim>\<open>None\<close> when none is.\<close>

fun first_group :: "regex list \<Rightarrow> string \<Rightarrow> string option" where
  "first_group [] c = None"
| "first_group (p # ps) c =
     (case re_search p c of Some x \<Rightarrow> snd x | None \<Rightarrow> first_group ps c)"

text \<open>\<^verbatim>\<open>not assigned_to\<close>: \<^verbatim>\<open>None\<close> and the empty string are false.\<close>

definition falsy :: "string option \<Rightarrow> bool" where
  "falsy x = (x = None \<or> x = Some [])"

definition make_action_item :: "transcript \<Rightarrow> action_item" where
  "make_action_item t =
     (let c = content t;
          assigned_to = first_group assignee_patterns c;
          due = first_group due_date_patterns c
      in \<lparr> ai_title = take 100 c @ ellipsis c,
           ai_description = c,
           assigned_to_speaker_id = (if falsy assigned_to then speaker_id t else None),
           assigned_to_name = assigned_to,
           due_date = due,
           status = ''PENDING'',
           priority = ''MEDIUM'' \<rparr>)"

text \<open>The loop over the segments, \<^verbatim>\<open>action_items\<close> as the accumulator.\<close>

fun action_loop :: "transcript list \<Rightarrow> action_item list \<Rightarrow> action_item list" where
  "action_loop [] acc = acc"
| "action_loop (t # ts) acc =
     (if blank (content t) then action_loop ts acc
      else if 2 \<le> action_score (content t) then action_loop ts (acc @ [make_action_item t])
      else action_loop ts acc)"

definition extract_action_items :: "transcript list \<Rightarrow> action_item list" where
  "extract_action_items ts = take 15 (action_loop ts [])"

section \<open>Decisions\<close>

record decision =
  d_title :: string
  d_description :: string
  d_timestamp :: "string option"
  decided_by_speaker_id :: "string option"

text \<open>\<^verbatim>\<open>s.split('.')\<close>: the pieces between the separators, \<open>cur\<close> the piece being read,
  reversed.  The result is never empty.\<close>

fun split_from :: "char \<Rightarrow> string \<Rightarrow> string \<Rightarrow> string list" where
  "split_from d cur [] = [rev cur]"
| "split_from d cur (c # cs) =
     (if c = d then rev cur # split_from d [] cs else split_from d (c # cur) cs)"

definition split_on :: "char \<Rightarrow> string \<Rightarrow> string list" where
  "split_on d s = split_from d [] s"

text \<open>The five decision patterns; \<^verbatim>\<open>agreed?\<close> is \<^verbatim>\<open>agree\<close> with an optional \<^verbatim>\<open>d\<close>.\<close>

definition apostrophe :: char where
  "apostrophe = CHR 0x27"

definition agreed :: regex where
  "agreed = Seq (Str ''agree'') (Opt (Str ''d''))"

definition concluded :: regex where
  "concluded = Seq (Str ''conclude'') (Opt (Str ''d''))"

definition decision_patterns :: "regex list" where
  "decision_patterns =
    [bounded (Seq (Str ''we '')
       (alts [Str ''decided'', Str ''agreed'', Str ''concluded'', Str ''determined''])),
     bounded (alts [Str ''decision'', agreed, concluded, Str ''determined'']),
     bounded (alts [Str (''let'' @ [apostrophe] @ ''s''), Str (''we'' @ [apostrophe] @ ''ll''),
                    Str ''we will'', Str ''we should'']),
     bounded (alts [Str ''approved'', Str ''rejected'', Str ''accepted'', Str ''denied'']),
     bounded (alts [Str ''final'', Str ''finalized'', Str ''settled'', Str ''resolved''])]"

text \<open>The dictionary appended for a sentence: the title is cut from the stripped sentence,
  the marker decided by the length of the sentence as split.\<close>

definition make_decision :: "transcript \<Rightarrow> string \<Rightarrow> decision" where
  "make_decision t sentence =
     \<lparr> d_title = take 100 (strip sentence) @ ellipsis sentence,
       d_description = strip sentence,
       d_timestamp = timestamp t,
       decided_by_speaker_id = speaker_id t \<rparr>"

text \<open>\<^verbatim>\<open>for sentence in sentences: if match.group() in sentence.lower(): ...; break\<close>.  The
  matched text keeps the case it has in the content; the sentence is lowered.\<close>

fun sentence_loop :: "transcript \<Rightarrow> match \<Rightarrow> string list \<Rightarrow> decision list \<Rightarrow> decision list" where
  "sentence_loop t mt [] acc = acc"
| "sentence_loop t mt (sentence # rest) acc =
     (if sublist (fst mt) (lower sentence) then acc @ [make_decision t sentence]
      else sentence_loop t mt rest acc)"

text \<open>\<^verbatim>\<open>for match in matches\<close>, \<^verbatim>\<open>for pattern in decision_patterns\<close> and
  \<^verbatim>\<open>for transcript in transcripts\<close>, \<^verbatim>\<open>decisions\<close> the accumulator.\<close>

fun match_loop :: "transcript \<Rightarrow> match list \<Rightarrow> decision list \<Rightarrow> decision list" where
  "match_loop t [] acc = acc"
| "match_loop t (mt # mts) acc =
     match_loop t mts (sentence_loop t mt (split_on CHR ''.'' (content t)) acc)"

fun pattern_loop :: "transcript \<Rightarrow> regex list \<Rightarrow> decision list \<Rightarrow> decision list" where
  "pattern_loop t [] acc = acc"
| "pattern_loop t (p # ps) acc = pattern_loop t ps (match_loop t (re_finditer p (content t)) acc)"

fun decision_loop :: "transcript list \<Rightarrow> decision list \<Rightarrow> decision list" where
  "decision_loop [] acc = acc"
| "decision_loop (t # ts) acc =
     (if blank (content t) then decision_loop ts acc
      else decision_loop ts (pattern_loop t decision_patterns acc))"

text \<open>The second loop: \<^verbatim>\<open>unique_decisions\<close> and \<^verbatim>\<open>seen_titles\<close>.\<close>

fun unique_loop :: "decision list \<Rightarrow> decision list \<Rightarrow> string set \<Rightarrow> decision list" where
  "unique_loop [] unique seen = unique"
| "unique_loop (d # ds) unique seen =
     (if d_title d \<notin> seen then unique_loop ds (unique @ [d]) (insert (d_title d) seen)
      else unique_loop ds unique seen)"

definition extract_decisions :: "transcript list \<Rightarrow> decision list" where
  "extract_decisions ts = take 10 (unique_loop (decision_loop ts []) [] {})"


section \<open>Important notes\<close>

text \<open>\<^verbatim>\<open>s.split()\<close>: the maximal runs of characters that are not white space; \<open>cur\<close> is
  the run being read, reversed.\<close>

fun split_ws_from :: "string \<Rightarrow> string \<Rightarrow> string list" where
  "split_ws_from cur [] = (if cur = [] then [] else [rev cur])"
| "split_ws_from cur (c # cs) =
     (if is_space c then (if cur = [] then split_ws_from [] cs else rev cur # split_ws_from [] cs)
      else split_ws_from (c # cur) cs)"

definition split_ws :: "string \<Rightarrow> string list" where
  "split_ws s = split_ws_from [] s"

text \<open>The eight categories.\<close>

definition important_patterns :: "regex list" where
  "important_patterns =
    [bounded (alts [Str ''important'', Str ''crucial'', Str ''critical'', Str ''key'',
                    Str ''essential'', Str ''vital'', Str ''significant'']),
     bounded (alts [Str ''remember'', Str ''note'', Str ''highlight'', Str ''emphasize'', Str ''stress'']),
     bounded (alts [Str ''action'', Str ''todo'', Str ''task'', follow_up, next_steps]),
     bounded (alts [Str ''decision'', Str ''decide'', agreed, concluded]),
     bounded (alts [Str ''problem'', Str ''issue'', Str ''concern'', Str ''challenge'', Str ''risk'']),
     bounded (alts [Str ''solution'', Str ''resolve'', Str ''fix'', Str ''address'']),
     bounded (alts [Str ''deadline'', Str ''due'', Str ''schedule'', Str ''timeline'']),
     bounded (alts [Str ''budget'', Str ''cost'', Str ''price'', Str ''expense''])]"

record important_note =
  in_content :: string
  in_speaker_id :: "string option"
  in_timestamp :: "string option"
  importance :: nat
  matched_patterns :: "regex list"

text \<open>\<^verbatim>\<open>for pattern in important_patterns: matches = re.findall(...); if matches: ...\<close>, with
  \<^verbatim>\<open>importance_score\<close> and \<^verbatim>\<open>matched_patterns\<close> as accumulators.\<close>

fun importance_loop :: "regex list \<Rightarrow> string \<Rightarrow> nat \<Rightarrow> regex list \<Rightarrow> nat \<times> regex list" where
  "importance_loop [] c score matched = (score, matched)"
| "importance_loop (p # ps) c score matched =
     (let matches = re_findall p c in
      if matches \<noteq> [] then importance_loop ps c (score + length matches) (matched @ [p])
      else importance_loop ps c score matched)"

text \<open>The score of one segment, from its lowered content: the pattern loop, the question
  marks, the exclamation marks, the word count.\<close>

definition score_segment :: "string \<Rightarrow> nat \<times> regex list" where
  "score_segment c =
     (let (s0, matched) = importance_loop important_patterns c 0 [];
          s1 = (if CHR ''?'' \<in> set c then s0 + count_list c CHR ''?'' else s0);
          s2 = (if CHR ''!'' \<in> set c then s1 + count_list c CHR ''!'' else s1);
          word_count = length (split_ws c);
          s3 = (if 20 < word_count then s2 + 1 else s2)
      in (s3, matched))"

definition make_note :: "transcript \<Rightarrow> nat \<times> regex list \<Rightarrow> important_note" where
  "make_note t sm =
     \<lparr> in_content = content t, in_speaker_id = speaker_id t, in_timestamp = timestamp t,
       importance = fst sm, matched_patterns = snd sm \<rparr>"

text \<open>\<^verbatim>\<open>for transcript in transcripts\<close>, \<^verbatim>\<open>important_notes\<close> the accumulator.\<close>

fun notes_loop :: "transcript list \<Rightarrow> important_note list \<Rightarrow> important_note list" where
  "notes_loop [] acc = acc"
| "notes_loop (t # ts) acc =
     (let c = lower (content t) in
      if blank c then notes_loop ts acc
      else if 0 < fst (score_segment c) then notes_loop ts (acc @ [make_note t (score_segment c)])
      else notes_loop ts acc)"

definition extract_important_notes :: "transcript list \<Rightarrow> important_note list" where
  "extract_important_notes ts = take 10 (sort_desc importance (notes_loop ts []))"



text \<open>Lowering a matcher state and a match, to compare a scan of the lowered content with
  a scan of the content.\<close>

definition lower_state :: "mstate \<Rightarrow> mstate" where
  "lower_state st = (case st of (p, m, g, s) \<Rightarrow> (map_option lower_char p, lower m, map_option lower g, lower s))"



text \<open>
  The keywords.  A pattern without \<^verbatim>\<open>\w\<close>, \<^verbatim>\<open>\d\<close>, \<^verbatim>\<open>+\<close> and groups matches finitely many
  texts up to case; \<open>lang\<close> lists them in lower case, and the keywords are the texts the
  eight patterns match.
\<close>

fun finite_rx :: "regex \<Rightarrow> bool" where
  "finite_rx (Str w) = True"
| "finite_rx (One k) = (case k of SetC cs \<Rightarrow> True | _ \<Rightarrow> False)"
| "finite_rx (Many k) = False"
| "finite_rx Bnd = True"
| "finite_rx (Seq a b) = (finite_rx a \<and> finite_rx b)"
| "finite_rx (Alt a b) = (finite_rx a \<and> finite_rx b)"
| "finite_rx (Opt r) = finite_rx r"
| "finite_rx (Grp r) = False"

fun lang :: "regex \<Rightarrow> string list" where
  "lang (Str w) = [lower w]"
| "lang (One k) = (case k of SetC cs \<Rightarrow> map (\<lambda>c. [c]) (lower cs) | _ \<Rightarrow> [])"
| "lang (Many k) = []"
| "lang Bnd = [[]]"
| "lang (Seq a b) = concat (map (\<lambda>v. map (\<lambda>w. v @ w) (lang b)) (lang a))"
| "lang (Alt a b) = lang a @ lang b"
| "lang (Opt r) = lang r @ [[]]"
| "lang (Grp r) = lang r"

definition keyword_list :: "string list" where
  "keyword_list = concat (map lang important_patterns)"



text \<open>The text a matcher state has still to read and the text it has matched, reversed;
  a state with \<open>x\<close> appended to the text to read; a state that has not read into an
  appended \<open>x\<close>.\<close>

definition unread :: "mstate \<Rightarrow> string" where
  "unread st = (case st of (p, m, g, s) \<Rightarrow> s)"

definition consumed :: "mstate \<Rightarrow> string" where
  "consumed st = (case st of (p, m, g, s) \<Rightarrow> m)"

definition ext :: "string \<Rightarrow> mstate \<Rightarrow> mstate" where
  "ext x st = (case st of (p, m, g, s) \<Rightarrow> (p, m, g, s @ x))"



section \<open>Themes\<close>

text \<open>
  Theme extraction calls two libraries: the sentence model, which turns each text into a
  vector, and k-means, which labels the vectors with cluster numbers.  Both are parameters
  here: \<open>encode\<close> gives the vector of a text, \<open>kmeans n vs\<close> the labels of the vectors
  \<open>vs\<close> for \<open>n\<close> clusters.  Vectors are lists of reals; the arithmetic is exact.
\<close>

type_synonym vec = "real list"

text \<open>\<^verbatim>\<open>sklearn.metrics.pairwise.cosine_similarity\<close>: both vectors are scaled to length 1 (a
  vector of length 0 is left as it is), then multiplied.\<close>

definition dot :: "vec \<Rightarrow> vec \<Rightarrow> real" where
  "dot x y = sum_list (map2 (*) x y)"

definition l2_norm :: "vec \<Rightarrow> real" where
  "l2_norm x = sqrt (sum_list (map (\<lambda>v. v * v) x))"

definition normalize :: "vec \<Rightarrow> vec" where
  "normalize x = (let n = l2_norm x in map (\<lambda>v. v / (if n = 0 then 1 else n)) x)"

definition cosine_similarity :: "vec \<Rightarrow> vec \<Rightarrow> real" where
  "cosine_similarity x y = dot (normalize x) (normalize y)"


text \<open>\<^verbatim>\<open>np.mean\<close> of a list of numbers, and of a list of vectors along axis 0.\<close>

definition mean :: "real list \<Rightarrow> real" where
  "mean xs = sum_list xs / real (length xs)"

definition centroid :: "vec list \<Rightarrow> vec" where
  "centroid vs = map mean (transpose vs)"

text \<open>\<^verbatim>\<open>np.argmax\<close>: the index of the first greatest element.\<close>

fun argmax_from :: "real \<Rightarrow> nat \<Rightarrow> nat \<Rightarrow> real list \<Rightarrow> nat" where
  "argmax_from best bi i [] = bi"
| "argmax_from best bi i (x # xs) =
     (if best < x then argmax_from x i (Suc i) xs else argmax_from best bi (Suc i) xs)"

definition argmax :: "real list \<Rightarrow> nat" where
  "argmax xs = (case xs of [] \<Rightarrow> 0 | x # rest \<Rightarrow> argmax_from x 0 1 rest)"

text \<open>The decimal digits of a number, for the f-strings.\<close>

function show_nat :: "nat \<Rightarrow> string" where
  "show_nat n =
     (if n < 10 then [''0123456789'' ! n] else show_nat (n div 10) @ [''0123456789'' ! (n mod 10)])"
  by pat_completeness auto
termination
  by (relation "measure id") auto

record theme =
  th_title :: string
  th_description :: string
  confidence :: real
  sample_texts :: "string list"

text \<open>\<^verbatim>\<open>representative_text.split('.')[0][:100] + ('...' if len(representative_text) > 100 else '')\<close>;
  \<^verbatim>\<open>split\<close> never returns an empty list, so \<^verbatim>\<open>[0]\<close> does not raise.\<close>

definition first_sentence :: "string \<Rightarrow> string" where
  "first_sentence s = (case split_on CHR ''.'' s of [] \<Rightarrow> [] | x # _ \<Rightarrow> x)"

definition theme_title :: "string \<Rightarrow> string" where
  "theme_title representative_text =
     take 100 (first_sentence representative_text) @ ellipsis representative_text"

text \<open>\<^verbatim>\<open>[xs[i] for i in range(len(xs)) if cluster_labels[i] == cluster_id]\<close>.\<close>

definition members :: "'a list \<Rightarrow> nat list \<Rightarrow> nat \<Rightarrow> 'a list" where
  "members xs labels cluster_id = map fst (filter (\<lambda>(x, l). l = cluster_id) (zip xs labels))"

definition make_theme :: "string list \<Rightarrow> vec list \<Rightarrow> theme" where
  "make_theme cluster_texts cluster_embeddings =
     (let similarities = map (cosine_similarity (centroid cluster_embeddings)) cluster_embeddings;
          representative_text = cluster_texts ! argmax similarities
      in \<lparr> th_title = theme_title representative_text,
           th_description = ''Discussion cluster with '' @ show_nat (length cluster_texts)
                            @ '' related segments'',
           confidence = mean similarities,
           sample_texts = take 3 cluster_texts \<rparr>)"

text \<open>\<^verbatim>\<open>for cluster_id in range(n_clusters)\<close>, \<^verbatim>\<open>themes\<close> the accumulator.\<close>

fun cluster_loop :: "string list \<Rightarrow> vec list \<Rightarrow> nat list \<Rightarrow> nat list \<Rightarrow> theme list \<Rightarrow> theme list" where
  "cluster_loop texts embeddings labels [] themes = themes"
| "cluster_loop texts embeddings labels (cluster_id # ids) themes =
     (if members texts labels cluster_id = [] then cluster_loop texts embeddings labels ids themes
      else cluster_loop texts embeddings labels ids
             (themes @ [make_theme (members texts labels cluster_id)
                                   (members embeddings labels cluster_id)]))"

text \<open>
  The whole function.  The sort is Python's stable sort on the confidence, greatest first.
  Should k-means return a number of labels other than the number of texts, the indexing of
  the source raises and the \<^verbatim>\<open>except\<close> branch returns the empty list.
\<close>

definition extract_themes_from_transcripts ::
  "(string \<Rightarrow> vec) \<Rightarrow> (nat \<Rightarrow> vec list \<Rightarrow> nat list) \<Rightarrow> transcript list \<Rightarrow> nat \<Rightarrow> theme list" where
  "extract_themes_from_transcripts encode kmeans transcripts num_themes =
     (if length transcripts < 2 then []
      else let texts = map content (filter (\<lambda>t. \<not> blank (content t)) transcripts) in
        if length texts < 2 then []
        else let embeddings = map encode texts;
                 n_clusters = min num_themes (length texts) in
          if n_clusters < 2 then []
          else let labels = kmeans n_clusters embeddings in
            if length labels \<noteq> length texts then []
            else sort_desc confidence
                   (cluster_loop texts embeddings labels [0..<n_clusters] []))"

section \<open>The fallback summary\<close>

text \<open>\<^verbatim>\<open>transcripts[:3]\<close> and \<^verbatim>\<open>transcripts[-3:] if len(transcripts) > 3 else []\<close>.\<close>

definition first_segments :: "'a list \<Rightarrow> 'a list" where
  "first_segments ts = take 3 ts"

definition last_segments :: "'a list \<Rightarrow> 'a list" where
  "last_segments ts = (if 3 < length ts then drop (length ts - 3) ts else [])"

text \<open>\<^verbatim>\<open>sep.join(xs)\<close>, the preview \<^verbatim>\<open>s.get('content', '')[:50] + "..."\<close> of a segment, and
  the distinct speaker identifiers that are neither \<^verbatim>\<open>None\<close> nor empty.\<close>

fun join :: "string \<Rightarrow> string list \<Rightarrow> string" where
  "join sep [] = []"
| "join sep [x] = x"
| "join sep (x # y # ys) = x @ sep @ join sep (y # ys)"

definition preview :: "transcript \<Rightarrow> string" where
  "preview s = take 50 (content s) @ ''...''"

definition speakers :: "transcript list \<Rightarrow> string list" where
  "speakers ts =
     remdups (concat (map (\<lambda>t. case speaker_id t of None \<Rightarrow> [] | Some s \<Rightarrow> if s = [] then [] else [s]) ts))"

definition quoted :: "string \<Rightarrow> string" where
  "quoted s = [apostrophe] @ s @ [apostrophe]"

definition generate_basic_summary :: "transcript list \<Rightarrow> string \<Rightarrow> string" where
  "generate_basic_summary ts meeting_title =
     (if ts = [] then
        ''Meeting '' @ quoted meeting_title @ '' was held but no transcript content is available.''
      else
        let s0 = ''Meeting '' @ quoted meeting_title @ '' included '' @ show_nat (length (speakers ts))
                 @ '' participants with '' @ show_nat (length ts) @ '' discussion segments. '';
            s1 = (if first_segments ts \<noteq> [] then
                    s0 @ ''The meeting began with discussions about: ''
                       @ join '' '' (map preview (take 2 (first_segments ts)))
                  else s0);
            s2 = (if last_segments ts \<noteq> [] then
                    s1 @ '' The meeting concluded with: ''
                       @ join '' '' (map preview (take 2 (last_segments ts)))
                  else s1)
        in s2)"

section \<open>The pipeline\<close>

text \<open>
  The services a run uses and the program does not define are parameters: the sentence
  model and k-means, whether an OpenAI key is configured and what the chat completion
  returns (\<^verbatim>\<open>None\<close> when the call raises), the clock, and the JSON codec
  (\<^verbatim>\<open>json.loads\<close> returns \<^verbatim>\<open>None\<close> when it raises).
\<close>

record notes_artifact =
  na_meeting_id :: string
  na_summary :: string
  na_themes :: "theme list"
  na_important_notes :: "important_note list"
  na_decisions :: "decision list"
  na_action_items :: "action_item list"
  processed_at :: string
  transcript_count :: nat

datatype error = ConnectionError | JSONDecodeError

record services =
  sentence_encode :: "string \<Rightarrow> vec"
  kmeans_labels :: "nat \<Rightarrow> vec list \<Rightarrow> nat list"
  openai_api_key :: bool
  chat_completion :: "transcript list \<Rightarrow> string \<Rightarrow> string option"
  utcnow :: string
  json_loads :: "string \<Rightarrow> transcript option"
  json_dumps :: "notes_artifact \<Rightarrow> string"

text \<open>
  The Redis server, as far as a run sees it: the lists, the string values with their time
  to live, and the \<^verbatim>\<open>setex\<close> calls it has served, in order.  \<open>calls_left\<close> is the number
  of calls still served before the connection fails (\<^verbatim>\<open>None\<close>: it never fails); a call on
  a failed connection raises and changes nothing.
\<close>

record redis =
  lists :: "string \<Rightarrow> string list"
  strings :: "string \<rightharpoonup> string"
  expiry :: "string \<rightharpoonup> nat"
  setex_calls :: "(string \<times> nat \<times> string) list"
  calls_left :: "nat option"

definition redis_down :: "redis \<Rightarrow> bool" where
  "redis_down r = (calls_left r = Some 0)"

definition tick :: "redis \<Rightarrow> redis" where
  "tick r = r\<lparr> calls_left := map_option (\<lambda>n. n - 1) (calls_left r) \<rparr>"

definition lrange_all :: "redis \<Rightarrow> string \<Rightarrow> (error + string list) \<times> redis" where
  "lrange_all r k = (if redis_down r then (Inl ConnectionError, r) else (Inr (lists r k), tick r))"

definition redis_get :: "redis \<Rightarrow> string \<Rightarrow> (error + string option) \<times> redis" where
  "redis_get r k = (if redis_down r then (Inl ConnectionError, r) else (Inr (strings r k), tick r))"

definition setex :: "redis \<Rightarrow> string \<Rightarrow> nat \<Rightarrow> string \<Rightarrow> (error + unit) \<times> redis" where
  "setex r k ttl v =
     (if redis_down r then (Inl ConnectionError, r)
      else (Inr (), tick (r\<lparr> strings := (strings r)(k \<mapsto> v),
                              expiry := (expiry r)(k \<mapsto> ttl),
                              setex_calls := setex_calls r @ [(k, ttl, v)] \<rparr>)))"

text \<open>The summary: the chat completion when a key is configured, there are segments and
  the call returns; the fallback summary otherwise.\<close>

definition generate_summary_with_openai :: "services \<Rightarrow> transcript list \<Rightarrow> string \<Rightarrow> string" where
  "generate_summary_with_openai sv ts meeting_title =
     (if \<not> openai_api_key sv \<or> ts = [] then generate_basic_summary ts meeting_title
      else (case chat_completion sv ts meeting_title of
              Some text \<Rightarrow> strip text
            | None \<Rightarrow> generate_basic_summary ts meeting_title))"

text \<open>\<^verbatim>\<open>for key in transcript_keys: data = await redis_client.get(key); if data: ...\<close>.\<close>

fun fetch_loop ::
  "services \<Rightarrow> string list \<Rightarrow> redis \<Rightarrow> transcript list \<Rightarrow> (error + transcript list) \<times> redis" where
  "fetch_loop sv [] r acc = (Inr acc, r)"
| "fetch_loop sv (k # ks) r acc =
     (case redis_get r k of
        (Inl e, r') \<Rightarrow> (Inl e, r')
      | (Inr None, r') \<Rightarrow> fetch_loop sv ks r' acc
      | (Inr (Some d), r') \<Rightarrow>
          if d = [] then fetch_loop sv ks r' acc
          else (case json_loads sv d of
                  None \<Rightarrow> (Inl JSONDecodeError, r')
                | Some t \<Rightarrow> fetch_loop sv ks r' (acc @ [t])))"

definition make_notes :: "services \<Rightarrow> string \<Rightarrow> transcript list \<Rightarrow> notes_artifact" where
  "make_notes sv meeting_id transcripts =
     \<lparr> na_meeting_id = meeting_id,
       na_summary = generate_summary_with_openai sv transcripts (''Meeting '' @ meeting_id),
       na_themes = extract_themes_from_transcripts (sentence_encode sv) (kmeans_labels sv) transcripts 5,
       na_important_notes = extract_important_notes transcripts,
       na_decisions = extract_decisions transcripts,
       na_action_items = extract_action_items transcripts,
       processed_at = utcnow sv,
       transcript_count = length transcripts \<rparr>"

text \<open>\<^verbatim>\<open>process_meeting_notes\<close>: the result (\<^verbatim>\<open>None\<close> for no data and for any exception) and
  the server afterwards.\<close>

definition process_meeting_notes ::
  "services \<Rightarrow> string \<Rightarrow> redis \<Rightarrow> notes_artifact option \<times> redis" where
  "process_meeting_notes sv meeting_id r =
     (case lrange_all r (''transcripts:'' @ meeting_id) of
        (Inl e, r1) \<Rightarrow> (None, r1)
      | (Inr transcript_keys, r1) \<Rightarrow>
          (case fetch_loop sv transcript_keys r1 [] of
             (Inl e, r2) \<Rightarrow> (None, r2)
           | (Inr transcripts, r2) \<Rightarrow>
               if transcripts = [] then (None, r2)
               else let notes_data = make_notes sv meeting_id transcripts in
                 (case setex r2 (''processed_notes:'' @ meeting_id) 86400 (json_dumps sv notes_data) of
                    (Inl e, r3) \<Rightarrow> (None, r3)
                  | (Inr u, r3) \<Rightarrow> (Some notes_data, r3))))"

text \<open>Nothing stored has changed between two states of the server.\<close>

definition same_cache :: "redis \<Rightarrow> redis \<Rightarrow> bool" where
  "same_cache r r' = (strings r' = strings r \<and> expiry r' = expiry r \<and> setex_calls r' = setex_calls r
                      \<and> lists r' = lists r)"

section \<open>Example inputs\<close>

definition launch_segment :: transcript where
  "launch_segment =
     \<lparr> content = ''We decided to launch next week.'', speaker_id = Some ''A'', timestamp = None \<rparr>"

definition budget_segment :: transcript where
  "budget_segment =
     \<lparr> content = ''John will follow up by March 5 on the budget issue.'',
       speaker_id = Some ''B'', timestamp = None \<rparr>"

definition vendor_segment :: transcript where
  "vendor_segment =
     \<lparr> content = ''Maria should follow up with the vendor before June 12 and then report the revised delivery schedule to the whole team'',
       speaker_id = Some ''C'', timestamp = None \<rparr>"



definition axis_texts :: "string list" where
  "axis_texts = [''one'', ''two'', ''three'', ''four'', ''five'', ''six'', ''seven'']"


definition axis_encode :: "string \<Rightarrow> vec" where
  "axis_encode t =
     (case map_of (zip axis_texts [[3], [- 1], [- 1], [1000], [- 1000], [2000], [- 2000]]) t of
        Some v \<Rightarrow> v | None \<Rightarrow> [0])"


definition standup_text :: string where
  "standup_text = ''Budget review. We went through every line of the quarterly budget and agreed to revisit the travel costs next month.''"

definition standup_segments :: "transcript list" where
  "standup_segments =
     [\<lparr> content = standup_text, speaker_id = Some ''A'', timestamp = None \<rparr>,
      \<lparr> content = ''Hiring update'', speaker_id = Some ''B'', timestamp = None \<rparr>]"

definition standup_encode :: "string \<Rightarrow> vec" where
  "standup_encode t = (if t = standup_text then [1] else [- 1])"

definition standup_kmeans :: "nat \<Rightarrow> vec list \<Rightarrow> nat list" where
  "standup_kmeans k embeddings = [0, 1]"


definition kickoff_segments :: "transcript list" where
  "kickoff_segments =
     [\<lparr> content = ''Welcome everyone'', speaker_id = Some ''A'', timestamp = None \<rparr>,
      \<lparr> content = ''Roadmap first'', speaker_id = Some ''B'', timestamp = None \<rparr>,
      \<lparr> content = ''Then hiring'', speaker_id = Some ''A'', timestamp = None \<rparr>,
      \<lparr> content = ''Thanks all'', speaker_id = Some ''B'', timestamp = None \<rparr>]"


definition demo_services :: services where
  "demo_services =
     \<lparr> sentence_encode = (\<lambda>t. [1]), kmeans_labels = (\<lambda>n vs. map (\<lambda>v. 0) vs),
       openai_api_key = False, chat_completion = (\<lambda>ts title. None),
       utcnow = ''2024-01-01T00:00:00'',
       json_loads = (\<lambda>d. if d = ''budget'' then Some budget_segment else None),
       json_dumps = (\<lambda>a. na_meeting_id a @ '' '' @ processed_at a) \<rparr>"

definition empty_redis :: redis where
  "empty_redis =
     \<lparr> lists = (\<lambda>k. []), strings = Map.empty, expiry = Map.empty, setex_calls = [],
       calls_left = None \<rparr>"

definition stored_redis :: redis where
  "stored_redis =
     empty_redis\<lparr> lists := (\<lambda>k. if k = ''transcripts:m1'' then [''transcript:m1:1''] else []),
                   strings := [''transcript:m1:1'' \<mapsto> ''budget''] \<rparr>"

section \<open>Character classes, bit by bit\<close>





section \<open>White space and word boundaries\<close>

lemma space_not_word: "is_space c \<Longrightarrow> \<not> is_word c"
  by (auto simp: is_space_def is_word_def is_digit_def lower_letters_def upper_letters_def)

lemma all_dropWhile: "(\<forall>x \<in> set (dropWhile P s). P x) \<longleftrightarrow> (\<forall>x \<in> set s. P x)"
  by (induction s) auto

lemma blank_iff: "blank s \<longleftrightarrow> (\<forall>c \<in> set s. is_space c)"
  by (simp add: blank_def strip_def dropWhile_eq_Nil_conv all_dropWhile)

text \<open>A pattern between two \<^verbatim>\<open>\b\<close> finds nothing in a text without word characters.\<close>

lemma bounded_no_word:
  assumes "\<forall>c \<in> set s. \<not> is_word c" and "case p of None \<Rightarrow> True | Some c \<Rightarrow> \<not> is_word c"
  shows "search_from (bounded r) p s = None"
  using assms
proof (induction s arbitrary: p)
  case Nil
  then show ?case
    by (auto simp: bounded_def match_at_def at_boundary_def split: option.splits)
next
  case (Cons c s)
  have "match_at (bounded r) p (c # s) = None"
    using Cons.prems by (auto simp: bounded_def match_at_def at_boundary_def split: option.splits)
  moreover have "search_from (bounded r) (Some c) s = None"
    using Cons.prems by (intro Cons.IH) auto
  ultimately show ?case by simp
qed

lemma blank_search: "blank s \<Longrightarrow> re_search (bounded r) s = None"
  unfolding re_search_def by (rule bounded_no_word) (auto simp: blank_iff space_not_word)

section \<open>Action items: threshold, cap, title\<close>

text \<open>A segment of white space only matches no category, so the \<^verbatim>\<open>continue\<close> on blank
  content skips nothing the threshold would have kept.\<close>

lemma blank_action_score: "blank s \<Longrightarrow> action_score s = 0"
  by (simp add: action_score_def action_patterns_def blank_search)

lemma action_loop_eq:
  "action_loop ts acc =
     acc @ map make_action_item (filter (\<lambda>t. 2 \<le> action_score (content t)) ts)"
proof (induction ts arbitrary: acc)
  case Nil
  then show ?case by simp
next
  case (Cons t ts)
  then show ?case
    using blank_action_score [of "content t"] by simp
qed

lemma extract_action_items_eq:
  "extract_action_items ts =
     take 15 (map make_action_item (filter (\<lambda>t. 2 \<le> action_score (content t)) ts))"
  by (simp add: extract_action_items_def action_loop_eq)

lemma budget_score: "action_score (content budget_segment) = 3"
  by code_simp

lemma vendor_score: "action_score (content vendor_segment) = 3"
  by code_simp

lemma launch_score: "action_score (content launch_segment) = 0"
  by code_simp

text \<open>
  Claim C7, as the code has it: the output is the items of the segments that match two or
  more of the five categories, in segment order, cut to the first fifteen.  So a segment
  matching one category (or none) produces no item, and each of the first fifteen segments
  matching two or more produces exactly one; every item that is output describes a
  segment with at least two matching categories.
\<close>

theorem action_items_threshold_and_cap:
  "extract_action_items ts =
     take 15 (map make_action_item (filter (\<lambda>t. 2 \<le> action_score (content t)) ts))
   \<and> (\<forall>i \<in> set (extract_action_items ts). 2 \<le> action_score (ai_description i))"
proof -
  have "2 \<le> action_score (ai_description i)" if "i \<in> set (extract_action_items ts)" for i
  proof -
    from that
    have "i \<in> set (map make_action_item (filter (\<lambda>t. 2 \<le> action_score (content t)) ts))"
      unfolding extract_action_items_eq by (rule in_set_takeD)
    then show ?thesis by (auto simp: make_action_item_def Let_def)
  qed
  with extract_action_items_eq [of ts] show ?thesis by blast
qed

theorem action_items_threshold_and_cap_witness:
  "extract_action_items [launch_segment, vendor_segment, budget_segment] =
     [make_action_item vendor_segment, make_action_item budget_segment]
   \<and> 2 \<le> action_score (ai_description (make_action_item vendor_segment))"
  using action_items_threshold_and_cap [of "[launch_segment, vendor_segment, budget_segment]"]
  by (simp add: budget_score vendor_score launch_score)

text \<open>
  Claim C7 as stated fails on the cap: of sixteen segments that each match three
  categories, the sixteenth produces no item.
\<close>

theorem action_items_sixteenth_dropped:
  "2 \<le> action_score (content vendor_segment)
   \<and> content vendor_segment \<notin> set (map ai_description
        (extract_action_items (replicate 15 budget_segment @ [vendor_segment])))"
proof -
  have "extract_action_items (replicate 15 budget_segment @ [vendor_segment])
        = replicate 15 (make_action_item budget_segment)"
    by (simp add: extract_action_items_eq budget_score vendor_score)
  moreover have "ai_description (make_action_item budget_segment) \<noteq> content vendor_segment"
    by (simp add: make_action_item_def Let_def budget_segment_def vendor_segment_def)
  ultimately show ?thesis by (auto simp: vendor_score)
qed

text \<open>
  Claim C10: every action item that is output comes from a segment of the input; its
  description is that segment's whole content, and its title is the first 100 characters
  of the content, followed by \<^verbatim>\<open>...\<close> exactly when the content is longer than 100
  characters.
\<close>

theorem action_item_title_and_description:
  assumes "i \<in> set (extract_action_items ts)"
  shows "\<exists>t \<in> set ts. ai_description i = content t \<and>
           ai_title i = take 100 (content t) @ (if 100 < length (content t) then ''...'' else [])"
proof -
  from assms
  have "i \<in> set (map make_action_item (filter (\<lambda>t. 2 \<le> action_score (content t)) ts))"
    unfolding extract_action_items_eq by (rule in_set_takeD)
  then obtain t where "t \<in> set ts" and "i = make_action_item t" by auto
  then show ?thesis
    by (auto simp: make_action_item_def Let_def ellipsis_def)
qed

theorem action_item_title_and_description_witness:
  "make_action_item vendor_segment \<in> set (extract_action_items [vendor_segment])
   \<and> ai_description (make_action_item vendor_segment) = content vendor_segment
   \<and> ai_title (make_action_item vendor_segment) =
       ''Maria should follow up with the vendor before June 12 and then report the revised delivery schedule ...''"
proof -
  have h: "make_action_item vendor_segment \<in> set (extract_action_items [vendor_segment])"
    by (simp add: extract_action_items_eq vendor_score)
  have "length (content vendor_segment) = 117"
    by (simp add: vendor_segment_def)
  with action_item_title_and_description [OF h] h show ?thesis
    by (simp add: vendor_segment_def)
qed

section \<open>Decisions: deduplication\<close>












section \<open>The end-to-end example\<close>

text \<open>
  Claim C1, evaluated: on the two segments of the example the action-item extractor
  returns one item, for John, due March 5; the decision extractor returns nothing.  The
  first pattern finds \<^verbatim>\<open>We decided\<close>, and that text, capital letter included, is looked for
  in the lowered sentence.
\<close>

theorem end_to_end_example:
  "extract_decisions [launch_segment, budget_segment] = []
   \<and> re_findall (hd decision_patterns) (content launch_segment) = [''We decided'']
   \<and> \<not> sublist ''We decided'' (lower ''We decided to launch next week'')
   \<and> length (extract_action_items [launch_segment, budget_segment]) = 1
   \<and> map assigned_to_name (extract_action_items [launch_segment, budget_segment]) = [Some ''John'']
   \<and> map due_date (extract_action_items [launch_segment, budget_segment]) = [Some ''March 5'']"
  by code_simp

section \<open>Sorting, greatest first\<close>




section \<open>Themes: confidence\<close>














lemma l2_norm_single: "l2_norm [x] = \<bar>x\<bar>"
  by (simp add: l2_norm_def)

lemma cosine_single:
  "cosine_similarity [x] [y] = (x / (if x = 0 then 1 else \<bar>x\<bar>)) * (y / (if y = 0 then 1 else \<bar>y\<bar>))"
  by (simp add: cosine_similarity_def normalize_def Let_def l2_norm_single dot_def)


lemma axis_embeddings:
  "map axis_encode axis_texts = [[3], [- 1], [- 1], [1000], [- 1000], [2000], [- 2000]]"
  by (simp add: axis_encode_def axis_texts_def)

lemma single_theme_conf: "x \<noteq> 0 \<Longrightarrow> confidence (make_theme [t] [[x]]) = 1"
  by (simp add: make_theme_def Let_def centroid_def mean_def cosine_single)

lemma origin_theme_conf: "confidence (make_theme [a, b, c] [[3], [- 1], [- 1]]) = - 1 / 3"
  by (simp add: make_theme_def Let_def centroid_def mean_def cosine_single)

lemma axis_themes:
  "map confidence (cluster_loop axis_texts (map axis_encode axis_texts) [0, 0, 0, 1, 2, 3, 4] [0..<5] [])
   = [- 1 / 3, 1, 1, 1, 1]"
  unfolding axis_embeddings
  by (simp add: axis_texts_def members_def upt_rec [of _ 5] upt_rec [of _ "numeral n" for n] single_theme_conf origin_theme_conf)





section \<open>Themes: title\<close>

text \<open>
  Claim C5, evaluated: the representative text is 116 characters long and its first
  sentence 13.  Nothing is cut from the sentence, and the title still ends in the
  marker, because the marker is decided by the length of the whole text.
\<close>

theorem theme_title_marker_without_cut:
  "length standup_text = 116
   \<and> first_sentence standup_text = ''Budget review''
   \<and> theme_title standup_text = ''Budget review...''
   \<and> map th_title (extract_themes_from_transcripts standup_encode standup_kmeans standup_segments 5)
       = [''Budget review...'', ''Hiring update'']"
proof -
  have a: "length standup_text = 116" "first_sentence standup_text = ''Budget review''"
    "theme_title standup_text = ''Budget review...''"
    by (simp_all add: theme_title_def first_sentence_def split_on_def ellipsis_def standup_text_def)
  have b: "theme_title ''Hiring update'' = ''Hiring update''"
    by (simp add: theme_title_def first_sentence_def split_on_def ellipsis_def)
  have c: "\<not> blank standup_text" "\<not> blank ''Hiring update''" "''Hiring update'' \<noteq> standup_text"
    by (simp_all add: blank_def strip_def is_space_def standup_text_def)
  have d: "x \<noteq> 0 \<Longrightarrow> make_theme [t] [[x]] =
        \<lparr> th_title = theme_title t, th_description = ''Discussion cluster with 1 related segments'',
          confidence = 1, sample_texts = [t] \<rparr>" for t x
    by (simp add: make_theme_def Let_def centroid_def mean_def cosine_single argmax_def)
  have "extract_themes_from_transcripts standup_encode standup_kmeans standup_segments 5
        = [make_theme [standup_text] [[1]], make_theme [''Hiring update''] [[- 1]]]"
    by (simp add: extract_themes_from_transcripts_def Let_def standup_segments_def c
        standup_encode_def standup_kmeans_def members_def upt_rec [of _ 2] upt_rec [of _ 1] d
        sort_desc_def)
  with a b show ?thesis by (simp add: d)
qed

section \<open>Important notes: score, order, cap\<close>






lemma lower_state_simp [simp]:
  "lower_state (p, m, g, s) = (map_option lower_char p, lower m, map_option lower g, lower s)"
  by (simp add: lower_state_def)

lemma lower_simps [simp]: "lower [] = []" "lower (c # s) = lower_char c # lower s"
  "lower (a @ b) = lower a @ lower b" "lower (rev a) = rev (lower a)"
  by (simp_all add: lower_def rev_map)
























section \<open>The fallback summary: first and last segments\<close>

text \<open>Seen on positions: the two windows share no position exactly when there are at most
  three or at least six segments.\<close>

lemma windows_disjoint_iff:
  "set (first_segments [0..<n]) \<inter> set (last_segments [0..<n]) = {} \<longleftrightarrow> n \<le> 3 \<or> 6 \<le> n"
proof (cases "3 < n")
  case False
  then show ?thesis by (simp add: first_segments_def last_segments_def)
next
  case True
  then have f: "set (first_segments [0..<n]) = {0..<3}"
    by (simp add: first_segments_def)
  have l: "set (last_segments [0..<n]) = {n - 3..<n}"
    using True by (simp add: last_segments_def)
  show ?thesis
  proof (cases "6 \<le> n")
    case True
    then show ?thesis unfolding f l by auto
  next
    case False
    with \<open>3 < n\<close> have "2 \<in> {0..<3} \<inter> {n - 3..<n}" by auto
    then have "{0..<3} \<inter> {n - 3..<n} \<noteq> {}" by blast
    with False \<open>3 < n\<close> show ?thesis unfolding f l by simp
  qed
qed

text \<open>
  Claim C9, evaluated on four segments: the first window holds segments 0, 1, 2 and the
  last window segments 1, 2, 3; the summary quotes the second segment both as how the
  meeting began and as how it concluded.
\<close>

theorem summary_windows_overlap_at_four:
  "first_segments [0, 1, 2, 3 :: nat] = [0, 1, 2]
   \<and> last_segments [0, 1, 2, 3 :: nat] = [1, 2, 3]
   \<and> map content (first_segments kickoff_segments) = [''Welcome everyone'', ''Roadmap first'', ''Then hiring'']
   \<and> map content (last_segments kickoff_segments) = [''Roadmap first'', ''Then hiring'', ''Thanks all'']
   \<and> generate_basic_summary kickoff_segments ''Meeting m1'' =
       ''Meeting '' @ quoted ''Meeting m1'' @ '' included 2 participants with 4 discussion segments. ''
       @ ''The meeting began with discussions about: Welcome everyone... Roadmap first...''
       @ '' The meeting concluded with: Roadmap first... Then hiring...''"
  by (simp add: first_segments_def last_segments_def kickoff_segments_def generate_basic_summary_def
      Let_def speakers_def preview_def)

section \<open>The pipeline: cache writes\<close>

lemma same_cache_refl: "same_cache r r"
  by (simp add: same_cache_def)

lemma same_cache_tick: "same_cache r (tick r)"
  by (simp add: same_cache_def tick_def)

lemma same_cache_trans: "same_cache a b \<Longrightarrow> same_cache b c \<Longrightarrow> same_cache a c"
  by (simp add: same_cache_def)

lemma lrange_same: "lrange_all r k = (x, r') \<Longrightarrow> same_cache r r'"
  by (auto simp: lrange_all_def same_cache_refl same_cache_tick split: if_splits)

lemma get_same: "redis_get r k = (x, r') \<Longrightarrow> same_cache r r'"
  by (auto simp: redis_get_def same_cache_refl same_cache_tick split: if_splits)

lemma fetch_same: "fetch_loop sv ks r acc = (x, r') \<Longrightarrow> same_cache r r'"
proof (induction ks arbitrary: r acc)
  case Nil
  then show ?case by (simp add: same_cache_refl)
next
  case (Cons k ks)
  obtain y r1 where g: "redis_get r k = (y, r1)" by (cases "redis_get r k")
  then have s: "same_cache r r1" by (rule get_same)
  show ?case
  proof (cases y)
    case (Inl e)
    with Cons.prems g s show ?thesis by simp
  next
    case (Inr data)
    show ?thesis
    proof (cases data)
      case None
      with Cons.prems g Inr have "fetch_loop sv ks r1 acc = (x, r')" by simp
      then show ?thesis using Cons.IH s same_cache_trans by blast
    next
      case (Some d)
      show ?thesis
      proof (cases "d = []")
        case True
        with Cons.prems g Inr Some have "fetch_loop sv ks r1 acc = (x, r')" by simp
        then show ?thesis using Cons.IH s same_cache_trans by blast
      next
        case False
        show ?thesis
        proof (cases "json_loads sv d")
          case None
          with Cons.prems g Inr Some False s show ?thesis by simp
        next
          case (Some t)
          with Cons.prems g Inr \<open>data = Some d\<close> False
          have "fetch_loop sv ks r1 (acc @ [t]) = (x, r')" by simp
          then show ?thesis using Cons.IH s same_cache_trans by blast
        qed
      qed
    qed
  qed
qed

lemma fetch_nothing:
  assumes "\<forall>k \<in> set ks. strings r k = None \<or> strings r k = Some []"
    and "fetch_loop sv ks r acc = (Inr ts, r')"
  shows "ts = acc"
  using assms
proof (induction ks arbitrary: r acc)
  case Nil
  then show ?case by simp
next
  case (Cons k ks)
  show ?case
  proof (cases "redis_down r")
    case True
    with Cons.prems show ?thesis by (simp add: redis_get_def)
  next
    case False
    have st: "strings (tick r) = strings r" by (simp add: tick_def)
    from Cons.prems(1) have k: "strings r k = None \<or> strings r k = Some []" by simp
    with Cons.prems(2) False have "fetch_loop sv ks (tick r) acc = (Inr ts, r')"
      by (auto simp: redis_get_def)
    moreover have "\<forall>k \<in> set ks. strings (tick r) k = None \<or> strings (tick r) k = Some []"
      using Cons.prems(1) st by simp
    ultimately show ?thesis by (rule Cons.IH [rotated])
  qed
qed

text \<open>
  Claim C8: a run over a meeting with no stored segment (no key in the list, or keys whose
  values are gone) returns no artifact and leaves the cache as it was; so does every run
  that returns no artifact, whatever failed; a run that returns an artifact has made
  exactly one write, of that artifact, under \<^verbatim>\<open>processed_notes:\<close> followed by the meeting
  identifier, with a time to live of 24 hours.
\<close>

theorem process_cache_writes:
  assumes "process_meeting_notes sv meeting_id r = (res, r')"
  shows "((\<forall>k \<in> set (lists r (''transcripts:'' @ meeting_id)).
            strings r k = None \<or> strings r k = Some []) \<longrightarrow> res = None \<and> same_cache r r')
       \<and> (res = None \<longrightarrow> same_cache r r')
       \<and> (\<forall>a. res = Some a \<longrightarrow>
             setex_calls r' = setex_calls r
                 @ [(''processed_notes:'' @ meeting_id, 24 * 60 * 60, json_dumps sv a)]
             \<and> strings r' = (strings r)(''processed_notes:'' @ meeting_id \<mapsto> json_dumps sv a)
             \<and> expiry r' = (expiry r)(''processed_notes:'' @ meeting_id \<mapsto> 24 * 60 * 60)
             \<and> 0 < transcript_count a)"
proof -
  obtain x r1 where l: "lrange_all r (''transcripts:'' @ meeting_id) = (x, r1)"
    by (cases "lrange_all r (''transcripts:'' @ meeting_id)")
  then have s1: "same_cache r r1" by (rule lrange_same)
  show ?thesis
  proof (cases x)
    case (Inl e)
    with assms l s1 show ?thesis by (simp add: process_meeting_notes_def)
  next
    case (Inr keys)
    with l have keys: "keys = lists r (''transcripts:'' @ meeting_id)"
      by (auto simp: lrange_all_def split: if_splits)
    obtain y r2 where f: "fetch_loop sv keys r1 [] = (y, r2)"
      by (cases "fetch_loop sv keys r1 []")
    then have "same_cache r1 r2" by (rule fetch_same)
    with s1 have s2: "same_cache r r2" by (rule same_cache_trans)
    show ?thesis
    proof (cases y)
      case (Inl e)
      with assms l f \<open>x = Inr keys\<close> s2 show ?thesis by (simp add: process_meeting_notes_def)
    next
      case ts: (Inr ts)
      have empty: "ts = []"
        if "\<forall>k \<in> set (lists r (''transcripts:'' @ meeting_id)). strings r k = None \<or> strings r k = Some []"
      proof -
        have "strings r1 = strings r" using s1 by (simp add: same_cache_def)
        with that keys have "\<forall>k \<in> set keys. strings r1 k = None \<or> strings r1 k = Some []" by simp
        then show ?thesis using f ts by (auto dest: fetch_nothing)
      qed
      show ?thesis
      proof (cases "ts = []")
        case True
        with assms l f \<open>x = Inr keys\<close> ts s2 show ?thesis by (simp add: process_meeting_notes_def)
      next
        case False
        let ?n = "make_notes sv meeting_id ts"
        obtain z r3 where w: "setex r2 (''processed_notes:'' @ meeting_id) 86400 (json_dumps sv ?n) = (z, r3)"
          by (cases "setex r2 (''processed_notes:'' @ meeting_id) 86400 (json_dumps sv ?n)")
        show ?thesis
        proof (cases z)
          case (Inl e)
          with w have "r3 = r2" by (auto simp: setex_def split: if_splits)
          with assms l f \<open>x = Inr keys\<close> ts False w Inl s2 empty show ?thesis
            by (auto simp: process_meeting_notes_def Let_def)
        next
          case (Inr u)
          with w have r3: "r3 = tick (r2\<lparr> strings := (strings r2)(''processed_notes:'' @ meeting_id \<mapsto> json_dumps sv ?n),
                              expiry := (expiry r2)(''processed_notes:'' @ meeting_id \<mapsto> 86400),
                              setex_calls := setex_calls r2 @ [(''processed_notes:'' @ meeting_id, 86400, json_dumps sv ?n)] \<rparr>)"
            by (auto simp: setex_def split: if_splits)
          have res: "res = Some ?n" "r' = r3"
            using assms l f \<open>x = Inr keys\<close> ts False w Inr
            by (auto simp: process_meeting_notes_def Let_def)
          have cnt: "0 < transcript_count ?n" using False by (simp add: make_notes_def)
          have c1: "(\<forall>k \<in> set (lists r (''transcripts:'' @ meeting_id)).
                       strings r k = None \<or> strings r k = Some []) \<longrightarrow> res = None \<and> same_cache r r'"
            using empty False by blast
          have c2: "res = None \<longrightarrow> same_cache r r'"
            using res by simp
          have c3: "setex_calls r' = setex_calls r
                       @ [(''processed_notes:'' @ meeting_id, 24 * 60 * 60, json_dumps sv ?n)]
                   \<and> strings r' = (strings r)(''processed_notes:'' @ meeting_id \<mapsto> json_dumps sv ?n)
                   \<and> expiry r' = (expiry r)(''processed_notes:'' @ meeting_id \<mapsto> 24 * 60 * 60)"
            using s2 unfolding res r3 by (simp add: same_cache_def tick_def)
          from c1 c2 c3 cnt res(1) show ?thesis by simp
        qed
      qed
    qed
  qed
qed

lemma demo_empty: "process_meeting_notes demo_services ''m1'' empty_redis = (None, empty_redis)"
  by (simp add: process_meeting_notes_def lrange_all_def redis_down_def tick_def empty_redis_def)

lemma demo_stored:
  "fst (process_meeting_notes demo_services ''m1'' stored_redis)
   = Some (make_notes demo_services ''m1'' [budget_segment])"
  by (simp add: process_meeting_notes_def lrange_all_def redis_get_def setex_def redis_down_def
      tick_def stored_redis_def empty_redis_def demo_services_def Let_def)

lemma demo_fail:
  "fst (process_meeting_notes demo_services ''m1'' (stored_redis\<lparr> calls_left := Some 2 \<rparr>)) = None"
  by (simp add: process_meeting_notes_def lrange_all_def redis_get_def setex_def redis_down_def
      tick_def stored_redis_def empty_redis_def demo_services_def Let_def)

theorem process_cache_writes_witness:
  "fst (process_meeting_notes demo_services ''m1'' empty_redis) = None
   \<and> setex_calls (snd (process_meeting_notes demo_services ''m1'' empty_redis)) = []
   \<and> fst (process_meeting_notes demo_services ''m1'' stored_redis)
       = Some (make_notes demo_services ''m1'' [budget_segment])
   \<and> setex_calls (snd (process_meeting_notes demo_services ''m1'' stored_redis))
       = [(''processed_notes:m1'', 86400, ''m1 2024-01-01T00:00:00'')]
   \<and> fst (process_meeting_notes demo_services ''m1'' (stored_redis\<lparr> calls_left := Some 2 \<rparr>)) = None
   \<and> setex_calls (snd (process_meeting_notes demo_services ''m1'' (stored_redis\<lparr> calls_left := Some 2 \<rparr>))) = []"
proof -
  let ?p = "process_meeting_notes demo_services ''m1''"
  have a: "fst (?p empty_redis) = None \<and> setex_calls (snd (?p empty_redis)) = []"
    using process_cache_writes [of demo_services "''m1''" empty_redis "fst (?p empty_redis)" "snd (?p empty_redis)"]
    by (simp add: empty_redis_def same_cache_def)
  have b: "setex_calls (snd (?p stored_redis)) = [(''processed_notes:m1'', 86400, ''m1 2024-01-01T00:00:00'')]"
    using process_cache_writes [of demo_services "''m1''" stored_redis "fst (?p stored_redis)" "snd (?p stored_redis)"]
      demo_stored
    by (simp add: stored_redis_def empty_redis_def demo_services_def make_notes_def)
  have c: "setex_calls (snd (?p (stored_redis\<lparr> calls_left := Some 2 \<rparr>))) = []"
    using process_cache_writes [of demo_services "''m1''" "stored_redis\<lparr> calls_left := Some 2 \<rparr>"
        "fst (?p (stored_redis\<lparr> calls_left := Some 2 \<rparr>))" "snd (?p (stored_redis\<lparr> calls_left := Some 2 \<rparr>))"]
      demo_fail
    by (simp add: stored_redis_def empty_redis_def same_cache_def)
  from a b c demo_stored demo_fail show ?thesis by simp
qed

section \<open>Important notes: appending a keyword\<close>

text \<open>What a pattern matches is one of its finitely many texts, up to case.\<close>

lemma unread_simp [simp]: "unread (p, m, g, s) = s"
  by (simp add: unread_def)

lemma ext_simp [simp]: "ext x (p, m, g, s) = (p, m, g, s @ x)"
  by (simp add: ext_def)

lemma lit_sound:
  "st' \<in> set (lit w st) \<Longrightarrow> \<exists>v. unread st = v @ unread st' \<and> lower v = lower w"
proof (induction w st rule: lit.induct)
  case (1 st)
  then show ?case by simp
next
  case (2 c w p m g)
  then show ?case by simp
next
  case (3 c w p m g d s)
  show ?case
  proof (cases "lower_char d = lower_char c")
    case True
    with 3 obtain v where "s = v @ unread st'" "lower v = lower w" by auto
    then have "d # s = (d # v) @ unread st' \<and> lower (d # v) = lower (c # w)"
      using True by simp
    then show ?thesis by (metis unread_simp)
  next
    case False
    with 3 show ?thesis by simp
  qed
qed

lemma rmatch_sound:
  "finite_rx r \<Longrightarrow> st' \<in> set (rmatch r st) \<Longrightarrow> \<exists>v. unread st = v @ unread st' \<and> lower v \<in> set (lang r)"
proof (induction r arbitrary: st st')
  case (Str w)
  then show ?case using lit_sound [of st' w st] by auto
next
  case (One k)
  obtain p m g s where st: "st = (p, m, g, s)" by (cases st)
  from One obtain cs where k: "k = SetC cs" by (cases k) auto
  from One(2) obtain c s' where "s = c # s'" "lower_char c \<in> set (lower cs)" "st' = (Some c, c # m, g, s')"
    unfolding st k by (cases s) (auto split: if_splits)
  then have "unread st = [c] @ unread st' \<and> lower [c] \<in> set (lang (One k))"
    by (simp add: st k)
  then show ?case by blast
next
  case (Many k)
  then show ?case by simp
next
  case Bnd
  obtain p m g s where st: "st = (p, m, g, s)" by (cases st)
  from Bnd show ?case unfolding st by (auto split: if_splits)
next
  case (Seq a b)
  from Seq.prems obtain st1 where 1: "st1 \<in> set (rmatch a st)" and 2: "st' \<in> set (rmatch b st1)"
    by auto
  from Seq.IH(1) [OF _ 1] Seq.prems(1) obtain v1 where v1: "unread st = v1 @ unread st1" "lower v1 \<in> set (lang a)"
    by auto
  from Seq.IH(2) [OF _ 2] Seq.prems(1) obtain v2 where v2: "unread st1 = v2 @ unread st'" "lower v2 \<in> set (lang b)"
    by auto
  have "unread st = (v1 @ v2) @ unread st'" using v1 v2 by simp
  moreover have "lower (v1 @ v2) \<in> set (lang (Seq a b))" using v1 v2 by auto
  ultimately show ?case by blast
next
  case (Alt a b)
  from Alt.prems(2) have "st' \<in> set (rmatch a st) \<or> st' \<in> set (rmatch b st)" by auto
  then show ?case
  proof
    assume "st' \<in> set (rmatch a st)"
    from Alt.IH(1) [OF _ this] Alt.prems(1) show ?thesis by auto
  next
    assume "st' \<in> set (rmatch b st)"
    from Alt.IH(2) [OF _ this] Alt.prems(1) show ?thesis by auto
  qed
next
  case (Opt r)
  from Opt.prems(2) have "st' \<in> set (rmatch r st) \<or> st' = st" by auto
  then show ?case
  proof
    assume "st' \<in> set (rmatch r st)"
    from Opt.IH [OF _ this] Opt.prems(1) show ?thesis by auto
  next
    assume "st' = st"
    then have "unread st = [] @ unread st' \<and> lower [] \<in> set (lang (Opt r))" by simp
    then show ?thesis by blast
  qed
next
  case (Grp r)
  then show ?case by simp
qed















lemma keyword_list_eq:
  "keyword_list =
    [''important'', ''crucial'', ''critical'', ''key'', ''essential'', ''vital'', ''significant'',
     ''remember'', ''note'', ''highlight'', ''emphasize'', ''stress'',
     ''action'', ''todo'', ''task'', ''follow-up'', ''follow up'', ''followup'', ''next steps'', ''next step'',
     ''decision'', ''decide'', ''agreed'', ''agree'', ''concluded'', ''conclude'',
     ''problem'', ''issue'', ''concern'', ''challenge'', ''risk'',
     ''solution'', ''resolve'', ''fix'', ''address'',
     ''deadline'', ''due'', ''schedule'', ''timeline'',
     ''budget'', ''cost'', ''price'', ''expense'']"
  by code_simp

lemma keywords_matched:
  "list_all (\<lambda>k. list_ex (\<lambda>p. re_findall p k = [k]) important_patterns) keyword_list"
  by code_simp





section \<open>The scan steps over whole matches\<close>

text \<open>
  In every result of the matcher the text matched is the text read from the position.
  No pattern that the source scans with matches the empty text, so after a match the scan
  resumes behind it, as Python's does.
\<close>

lemma consumed_simp [simp]: "consumed (p, m, g, s) = m"
  by (simp add: consumed_def)

lemma lit_consumed:
  "st' \<in> set (lit w st) \<Longrightarrow> \<exists>v. unread st = v @ unread st' \<and> consumed st' = rev v @ consumed st"
proof (induction w st rule: lit.induct)
  case (1 st)
  then show ?case by simp
next
  case (2 c w p m g)
  then show ?case by simp
next
  case (3 c w p m g d s)
  show ?case
  proof (cases "lower_char d = lower_char c")
    case True
    with 3 obtain v where "s = v @ unread st'" "consumed st' = rev v @ d # m" by auto
    then have "d # s = (d # v) @ unread st' \<and> consumed st' = rev (d # v) @ m" by simp
    then show ?thesis by (metis unread_simp consumed_simp)
  next
    case False
    with 3 show ?thesis by simp
  qed
qed

lemma many_consumed:
  "st' \<in> set (many k st) \<Longrightarrow> \<exists>v. unread st = v @ unread st' \<and> consumed st' = rev v @ consumed st"
proof (induction k st rule: many.induct)
  case (1 k p m g)
  then show ?case by simp
next
  case (2 k p m g c s)
  show ?case
  proof (cases "in_class k c")
    case False
    with 2 show ?thesis by simp
  next
    case True
    with 2(2) have "st' \<in> set (many k (Some c, c # m, g, s)) \<or> st' = (Some c, c # m, g, s)" by auto
    then show ?thesis
    proof
      assume "st' \<in> set (many k (Some c, c # m, g, s))"
      from 2(1) [OF True this] obtain v where "s = v @ unread st'" "consumed st' = rev v @ c # m" by auto
      then have "c # s = (c # v) @ unread st' \<and> consumed st' = rev (c # v) @ m" by simp
      then show ?thesis by (metis unread_simp consumed_simp)
    next
      assume "st' = (Some c, c # m, g, s)"
      then have "c # s = [c] @ unread st' \<and> consumed st' = rev [c] @ m" by simp
      then show ?thesis by (metis unread_simp consumed_simp)
    qed
  qed
qed

lemma rmatch_consumed:
  "st' \<in> set (rmatch r st) \<Longrightarrow> \<exists>v. unread st = v @ unread st' \<and> consumed st' = rev v @ consumed st"
proof (induction r arbitrary: st st')
  case (Str w)
  then show ?case using lit_consumed [of st' w st] by simp
next
  case (One k)
  obtain p m g s where st: "st = (p, m, g, s)" by (cases st)
  from One obtain c s' where "s = c # s'" "st' = (Some c, c # m, g, s')"
    unfolding st by (cases s) (auto split: if_splits)
  then have "unread st = [c] @ unread st' \<and> consumed st' = rev [c] @ consumed st"
    by (simp add: st)
  then show ?case by blast
next
  case (Many k)
  then show ?case using many_consumed [of st' k st] by simp
next
  case Bnd
  obtain p m g s where st: "st = (p, m, g, s)" by (cases st)
  from Bnd show ?case unfolding st by (auto split: if_splits)
next
  case (Seq a b)
  from Seq.prems obtain st1 where 1: "st1 \<in> set (rmatch a st)" and 2: "st' \<in> set (rmatch b st1)"
    by auto
  from Seq.IH(1) [OF 1] obtain v1 where v1: "unread st = v1 @ unread st1" "consumed st1 = rev v1 @ consumed st"
    by auto
  from Seq.IH(2) [OF 2] obtain v2 where v2: "unread st1 = v2 @ unread st'" "consumed st' = rev v2 @ consumed st1"
    by auto
  have "unread st = (v1 @ v2) @ unread st' \<and> consumed st' = rev (v1 @ v2) @ consumed st"
    using v1 v2 by simp
  then show ?case by blast
next
  case (Alt a b)
  from Alt.prems have "st' \<in> set (rmatch a st) \<or> st' \<in> set (rmatch b st)" by auto
  then show ?case using Alt.IH by blast
next
  case (Opt r)
  from Opt.prems have "st' \<in> set (rmatch r st) \<or> st' = st" by auto
  then show ?case
  proof
    assume "st' \<in> set (rmatch r st)"
    then show ?thesis by (rule Opt.IH)
  next
    assume "st' = st"
    then have "unread st = [] @ unread st' \<and> consumed st' = rev [] @ consumed st" by simp
    then show ?thesis by blast
  qed
next
  case (Grp r)
  obtain p m g s where st: "st = (p, m, g, s)" by (cases st)
  from Grp.prems obtain p' m' g' s' where in_r: "(p', m', g', s') \<in> set (rmatch r (p, [], g, s))"
    and st': "st' = (p', m' @ m, Some (rev m'), s')"
    unfolding st by auto
  from Grp.IH [OF in_r] obtain v where "s = v @ s'" "m' = rev v" by auto
  then have "unread st = v @ unread st' \<and> consumed st' = rev v @ consumed st"
    by (simp add: st st')
  then show ?case by blast
qed

text \<open>The text of a match is the text read, so the scan steps over exactly the match.\<close>

lemma match_at_text:
  assumes "match_at r p s = Some x"
  shows "\<exists>s'. s = fst x @ s'"
proof -
  from assms obtain p' m' g' s' tl where
    r: "rmatch r (p, [], None, s) = (p', m', g', s') # tl" and x: "x = (rev m', g')"
    by (auto simp: match_at_def split: list.splits)
  then have "(p', m', g', s') \<in> set (rmatch r (p, [], None, s))" by simp
  from rmatch_consumed [OF this] x show ?thesis by auto
qed

lemma source_patterns_checked:
  "list_all (\<lambda>p. finite_rx p \<and> [] \<notin> set (lang p)) (important_patterns @ decision_patterns @ action_patterns)"
  by code_simp

lemma source_match_nonempty:
  assumes "p \<in> set (important_patterns @ decision_patterns @ action_patterns)"
    and "match_at p prev s = Some x"
  shows "fst x \<noteq> []"
proof -
  from source_patterns_checked assms(1) have f: "finite_rx p" and n: "[] \<notin> set (lang p)"
    by (auto simp: list_all_iff)
  from assms(2) obtain p' m' g' s' tl where
    r: "rmatch p (prev, [], None, s) = (p', m', g', s') # tl" and x: "x = (rev m', g')"
    by (auto simp: match_at_def split: list.splits)
  then have mem: "(p', m', g', s') \<in> set (rmatch p (prev, [], None, s))" by simp
  from rmatch_sound [OF f mem] obtain v where v: "s = v @ s'" "lower v \<in> set (lang p)" by auto
  from rmatch_consumed [OF mem] obtain v' where v': "s = v' @ s'" "m' = rev v'" by auto
  from v(1) v'(1) have "v = v'" by simp
  moreover from v(2) n have "v \<noteq> []" by (auto simp: lower_def)
  ultimately show ?thesis using x v'(2) by simp
qed


section \<open>The representative text\<close>

text \<open>\<^verbatim>\<open>np.argmax\<close> returns an index of the list, so \<^verbatim>\<open>cluster_texts[most_representative_idx]\<close>
  does not raise.\<close>

lemma argmax_from_less: "bi < i \<Longrightarrow> argmax_from best bi i xs < i + length xs"
proof (induction xs arbitrary: best bi i)
  case Nil
  then show ?case by simp
next
  case (Cons x xs)
  have a: "argmax_from x i (Suc i) xs < Suc i + length xs"
    by (rule Cons.IH) simp
  have b: "argmax_from best bi (Suc i) xs < Suc i + length xs"
    using Cons.prems by (intro Cons.IH) simp
  from a b show ?case by simp
qed

lemma argmax_less: "xs \<noteq> [] \<Longrightarrow> argmax xs < length xs"
  using argmax_from_less [of 0 1] by (cases xs) (auto simp: argmax_def)

end
